theory Spec2Isabelle
  imports Complex_Main "HOL-Library.Word" "HOL-Library.Sublist" "HOL-Library.Multiset"
begin

section \<open>The user-management demonstration program (test-files/cpp-test.cpp)\<close>

text \<open>
  The program has three classes: \<open>User\<close> (a value object), the class template
  \<open>UserCollection<T>\<close> (a vector behind a shared mutex) and \<open>UserManager\<close> (a
  collection of users, an atomic counter for identifiers and a configuration map).

  C++ member names end in an underscore, which is not a name here, so each data member
  carries the initial of its class instead: \<open>id_\<close> of \<open>User\<close> is \<open>id_u\<close>,
  \<open>users_\<close> of \<open>UserCollection\<close> is \<open>users_c\<close>, \<open>users_\<close> and \<open>next_id_\<close> of
  \<open>UserManager\<close> are \<open>users_m\<close> and \<open>next_id_m\<close>. The mutexes hold no data; what
  they guarantee (each member function of the collection runs alone on the vector) is
  how the functions below are read: one call is one atomic step.
\<close>

subsection \<open>Enumerations and the class User\<close>

datatype UserRole = ADMIN | USER | GUEST

datatype UserStatus = ACTIVE | INACTIVE | SUSPENDED

text \<open>A reading of \<open>std::chrono::system_clock\<close>, in ticks of the clock.\<close>

type_synonym time_point = int

record User =
  id_u :: "64 word"
  name_u :: string
  email_u :: string
  role_u :: UserRole
  status_u :: UserStatus
  created_at_u :: time_point

text \<open>
  The constructor \<open>User(id, name, email, role)\<close>: the status starts as \<open>ACTIVE\<close> and
  the creation time is the clock's reading \<open>now\<close>, which the model takes as an argument.
\<close>

definition User_ctor :: "64 word \<Rightarrow> string \<Rightarrow> string \<Rightarrow> UserRole \<Rightarrow> time_point \<Rightarrow> User" where
  "User_ctor ident name email role now =
     \<lparr>id_u = ident, name_u = name, email_u = email, role_u = role,
      status_u = ACTIVE, created_at_u = now\<rparr>"

definition getId :: "User \<Rightarrow> 64 word" where
  "getId user = id_u user"

definition getRole :: "User \<Rightarrow> UserRole" where
  "getRole user = role_u user"

definition getStatus :: "User \<Rightarrow> UserStatus" where
  "getStatus user = status_u user"

definition isActive :: "User \<Rightarrow> bool" where
  "isActive user \<longleftrightarrow> status_u user = ACTIVE"

subsection \<open>The class template UserCollection\<close>

record 'a UserCollection =
  users_c :: "'a list"

text \<open>
  \<open>addUser(const T&)\<close> is \<open>push_back\<close>, \<open>addUser(T&&)\<close> is \<open>emplace_back\<close> of the
  moved argument: both put the value at the end of the vector. Neither has a branch that
  fails.
\<close>

definition addUser :: "'a \<Rightarrow> 'a UserCollection \<Rightarrow> 'a UserCollection" where
  "addUser user c = c\<lparr>users_c := users_c c @ [user]\<rparr>"

definition addUser_move :: "'a \<Rightarrow> 'a UserCollection \<Rightarrow> 'a UserCollection" where
  "addUser_move user c = c\<lparr>users_c := users_c c @ [user]\<rparr>"

text \<open>
  \<open>std::find_if\<close> walks the range from its beginning and returns the iterator of the
  first element the predicate accepts, or the end iterator. An iterator is the position
  in the vector, the end iterator is the length.
\<close>

fun find_if :: "'a list \<Rightarrow> ('a \<Rightarrow> bool) \<Rightarrow> nat" where
  "find_if [] pred = 0"
| "find_if (x # xs) pred = (if pred x then 0 else Suc (find_if xs pred))"

definition findUser :: "('a \<Rightarrow> bool) \<Rightarrow> 'a UserCollection \<Rightarrow> 'a option" where
  "findUser pred c =
     (let it = find_if (users_c c) pred
      in if it \<noteq> length (users_c c) then Some (users_c c ! it) else None)"

text \<open>
  \<open>std::copy_if\<close> with a \<open>back_inserter\<close>: every accepted element is pushed to the
  back of \<open>result\<close>, in the order of the walk.
\<close>

fun copy_if :: "'a list \<Rightarrow> 'a list \<Rightarrow> ('a \<Rightarrow> bool) \<Rightarrow> 'a list" where
  "copy_if [] result pred = result"
| "copy_if (x # xs) result pred =
     copy_if xs (if pred x then result @ [x] else result) pred"

definition filterUsers :: "('a \<Rightarrow> bool) \<Rightarrow> 'a UserCollection \<Rightarrow> 'a list" where
  "filterUsers pred c = copy_if (users_c c) [] pred"

definition size_c :: "'a UserCollection \<Rightarrow> nat" where
  "size_c c = length (users_c c)"

definition empty_c :: "'a UserCollection \<Rightarrow> bool" where
  "empty_c c \<longleftrightarrow> users_c c = []"

text \<open>
  The collection as an object: a call of a member function gives a reply and the
  collection after the call. The \<open>const\<close> member functions hand the collection back
  as they received it.
\<close>

datatype 'a call =
    AddUser 'a
  | FindUser "'a \<Rightarrow> bool"
  | FilterUsers "'a \<Rightarrow> bool"
  | Size
  | Empty

datatype 'a reply =
    Done
  | Found "'a option"
  | Matches "'a list"
  | Count nat
  | Flag bool

fun invoke :: "'a call \<Rightarrow> 'a UserCollection \<Rightarrow> 'a reply \<times> 'a UserCollection" where
  "invoke (AddUser user) c = (Done, addUser user c)"
| "invoke (FindUser pred) c = (Found (findUser pred c), c)"
| "invoke (FilterUsers pred) c = (Matches (filterUsers pred c), c)"
| "invoke Size c = (Count (size_c c), c)"
| "invoke Empty c = (Flag (empty_c c), c)"

subsection \<open>The class UserManager\<close>

record UserManager =
  users_m :: "User UserCollection"
  next_id_m :: "64 word"
  config_m :: "string \<rightharpoonup> string"

text \<open>The constructor: an empty collection, the counter at 1, the given configuration.\<close>

definition UserManager_ctor :: "(string \<rightharpoonup> string) \<Rightarrow> UserManager" where
  "UserManager_ctor config =
     \<lparr>users_m = \<lparr>users_c = []\<rparr>, next_id_m = 1, config_m = config\<rparr>"

text \<open>
  \<open>next_id_.fetch_add(1)\<close>: one atomic step that returns the counter's value and
  leaves the counter one higher, modulo \<open>2 ^ 64\<close>.
\<close>

definition fetch_add :: "UserManager \<Rightarrow> 64 word \<times> UserManager" where
  "fetch_add m = (next_id_m m, m\<lparr>next_id_m := next_id_m m + 1\<rparr>)"

text \<open>
  The role of \<open>createUserAsync\<close> has the default \<open>UserRole::USER\<close>: an omitted
  argument is \<open>None\<close>.
\<close>

definition role_or_default :: "UserRole option \<Rightarrow> UserRole" where
  "role_or_default r = (case r of None \<Rightarrow> USER | Some role \<Rightarrow> role)"

text \<open>
  The task that \<open>createUserAsync\<close> hands to \<open>std::async\<close> runs, after its sleep,
  four statements: \<open>fetch_add\<close> on the counter (l.232), the construction of the user
  (l.233), \<open>addUser\<close> under the collection's exclusive lock (l.235), and the print
  followed by the return (l.237-238). Only \<open>fetch_add\<close> and \<open>addUser\<close> touch the
  manager, each in one atomic step; the construction is local to the task and goes with
  the \<open>fetch_add\<close> before it. The call has completed when the task has returned:
  then the future holds the user. Between the steps other tasks may run.

  Three of the statements can throw (the construction, \<open>addUser\<close> and the print, which
  builds a string from the user); \<open>fetch_add\<close> cannot. The task catches nothing, so an
  exception ends it and the future holds the exception instead of a user. An
  \<open>addUser\<close> that throws leaves the vector as it was, which is what
  \<open>std::vector::push_back\<close> guarantees.
\<close>

datatype statement = Construct | Insert | Print

datatype task =
    Launched string string UserRole
  | Allocated User
  | Inserted User
  | Completed User
  | Failed_Construct "64 word"
  | Failed_Insert User
  | Failed_Print User

text \<open>The next step of a task when its statement does not throw.\<close>

fun step_task :: "time_point \<Rightarrow> task \<Rightarrow> UserManager \<Rightarrow> task \<times> UserManager" where
  "step_task now (Launched name email role) m =
     (let (ident, m') = fetch_add m
      in (Allocated (User_ctor ident name email role now), m'))"
| "step_task now (Allocated user) m =
     (Inserted user, m\<lparr>users_m := addUser user (users_m m)\<rparr>)"
| "step_task now (Inserted user) m = (Completed user, m)"
| "step_task now (Completed user) m = (Completed user, m)"
| "step_task now (Failed_Construct ident) m = (Failed_Construct ident, m)"
| "step_task now (Failed_Insert user) m = (Failed_Insert user, m)"
| "step_task now (Failed_Print user) m = (Failed_Print user, m)"

text \<open>
  The next step of a task when its statement throws. A launched task has still taken
  its identifier, since \<open>fetch_add\<close> comes before the construction that throws.
\<close>

fun throw_task :: "task \<Rightarrow> UserManager \<Rightarrow> task \<times> UserManager" where
  "throw_task (Launched name email role) m =
     (let (ident, m') = fetch_add m in (Failed_Construct ident, m'))"
| "throw_task (Allocated user) m = (Failed_Insert user, m)"
| "throw_task (Inserted user) m = (Failed_Print user, m)"
| "throw_task (Completed user) m = (Completed user, m)"
| "throw_task (Failed_Construct ident) m = (Failed_Construct ident, m)"
| "throw_task (Failed_Insert user) m = (Failed_Insert user, m)"
| "throw_task (Failed_Print user) m = (Failed_Print user, m)"

text \<open>
  \<open>createUserAsync\<close> followed at once by \<open>get()\<close> on the future, when nothing
  throws: the task runs to its end with nothing in between and the caller receives the
  user.
\<close>

definition createUserAsync ::
    "string \<Rightarrow> string \<Rightarrow> UserRole option \<Rightarrow> time_point \<Rightarrow> UserManager \<Rightarrow> User \<times> UserManager" where
  "createUserAsync name email role now m =
     (let (ident, m1) = fetch_add m;
          user = User_ctor ident name email (role_or_default role) now
      in (user, m1\<lparr>users_m := addUser user (users_m m1)\<rparr>))"

text \<open>
  The same run with the statement that throws, if any, as an argument. What \<open>get()\<close>
  gives the caller is the user, or the exception, named here by the statement that
  threw it.
\<close>

definition task_body ::
    "statement option \<Rightarrow> string \<Rightarrow> string \<Rightarrow> UserRole option \<Rightarrow> time_point \<Rightarrow> UserManager
       \<Rightarrow> (statement + User) \<times> UserManager" where
  "task_body throws name email role now m =
     (let (ident, m1) = fetch_add m
      in if throws = Some Construct then (Inl Construct, m1)
         else let user = User_ctor ident name email (role_or_default role) now
              in if throws = Some Insert then (Inl Insert, m1)
                 else let m2 = m1\<lparr>users_m := addUser user (users_m m1)\<rparr>
                      in if throws = Some Print then (Inl Print, m2)
                         else (Inr user, m2))"

definition findUserById :: "64 word \<Rightarrow> UserManager \<Rightarrow> User option" where
  "findUserById ident m = findUser (\<lambda>user. getId user = ident) (users_m m)"

definition getUsersByRole :: "UserRole \<Rightarrow> UserManager \<Rightarrow> User list" where
  "getUsersByRole role m = filterUsers (\<lambda>user. getRole user = role) (users_m m)"

definition getActiveUsers :: "UserManager \<Rightarrow> User list" where
  "getActiveUsers m = filterUsers (\<lambda>user. isActive user) (users_m m)"

text \<open>
  \<open>size_t\<close> counts are natural numbers (a vector's size always fits). The quotient
  \<open>static_cast<double>(size) / 30.0\<close> is taken in the reals: the rounding of
  \<open>double\<close> is not part of the model.
\<close>

record UserStats =
  total_users :: nat
  active_users :: nat
  admin_users :: nat
  avg_users_per_day :: real

definition getStatistics :: "UserManager \<Rightarrow> UserStats" where
  "getStatistics m =
     (let active = getActiveUsers m;
          admins = getUsersByRole ADMIN m
      in \<lparr>total_users = size_c (users_m m),
          active_users = length active,
          admin_users = length admins,
          avg_users_per_day = real (size_c (users_m m)) / 30.0\<rparr>)"

subsection \<open>Many tasks at once\<close>

text \<open>
  A manager together with the tasks it has launched (the futures the caller holds, in
  the order of the calls). What happens is a list of events: a call of
  \<open>createUserAsync\<close>, which launches a task; the next step of the task with a given
  index, taken when the clock reads \<open>now\<close>; or the next step of that task throwing.
  An event for a task that does not exist or has ended changes nothing. Every
  interleaving of the tasks is such a list.
\<close>

record system =
  manager :: UserManager
  futures :: "task list"

datatype event =
    Call string string "UserRole option"
  | Step nat time_point
  | Throw nat

definition init :: "(string \<rightharpoonup> string) \<Rightarrow> system" where
  "init config = \<lparr>manager = UserManager_ctor config, futures = []\<rparr>"

fun exec :: "event \<Rightarrow> system \<Rightarrow> system" where
  "exec (Call name email role) s =
     s\<lparr>futures := futures s @ [Launched name email (role_or_default role)]\<rparr>"
| "exec (Step i now) s =
     (if i < length (futures s)
      then (let (t, m) = step_task now (futures s ! i) (manager s)
            in \<lparr>manager = m, futures = (futures s)[i := t]\<rparr>)
      else s)"
| "exec (Throw i) s =
     (if i < length (futures s)
      then (let (t, m) = throw_task (futures s ! i) (manager s)
            in \<lparr>manager = m, futures = (futures s)[i := t]\<rparr>)
      else s)"

fun run :: "event list \<Rightarrow> system \<Rightarrow> system" where
  "run [] s = s"
| "run (e # es) s = run es (exec e s)"

fun is_Launched :: "task \<Rightarrow> bool" where
  "is_Launched (Launched name email role) = True"
| "is_Launched t = False"

fun is_Allocated :: "task \<Rightarrow> bool" where
  "is_Allocated (Allocated user) = True"
| "is_Allocated t = False"

fun is_Completed :: "task \<Rightarrow> bool" where
  "is_Completed (Completed user) = True"
| "is_Completed t = False"

text \<open>
  What one task contributes: the user its completed call returned, the user it has put
  into the collection (whether or not it has returned since, or ever will), and the
  identifier it has taken from the counter.
\<close>

fun task_result :: "task \<Rightarrow> User list" where
  "task_result (Completed user) = [user]"
| "task_result t = []"

fun task_stored :: "task \<Rightarrow> User list" where
  "task_stored (Inserted user) = [user]"
| "task_stored (Completed user) = [user]"
| "task_stored (Failed_Print user) = [user]"
| "task_stored t = []"

fun task_id :: "task \<Rightarrow> 64 word list" where
  "task_id (Launched name email role) = []"
| "task_id (Allocated user) = [id_u user]"
| "task_id (Inserted user) = [id_u user]"
| "task_id (Completed user) = [id_u user]"
| "task_id (Failed_Construct ident) = [ident]"
| "task_id (Failed_Insert user) = [id_u user]"
| "task_id (Failed_Print user) = [id_u user]"

text \<open>The same for all tasks, in the order of the calls.\<close>

definition completed :: "task list \<Rightarrow> User list" where
  "completed ts = concat (map task_result ts)"

definition inserted :: "task list \<Rightarrow> User list" where
  "inserted ts = concat (map task_stored ts)"

definition numbered :: "task list \<Rightarrow> 64 word list" where
  "numbered ts = concat (map task_id ts)"

text \<open>
  A task that has put its user into the collection and has not returned: it is about to
  print, or the print has thrown.
\<close>

fun stored_unreturned :: "task \<Rightarrow> bool" where
  "stored_unreturned (Inserted user) = True"
| "stored_unreturned (Failed_Print user) = True"
| "stored_unreturned t = False"

text \<open>
  The identifiers in the order in which \<open>fetch_add\<close> handed them out along a list of
  events: a step of a launched task, throwing or not, issues the counter's value of
  that moment.
\<close>

fun issues :: "event \<Rightarrow> system \<Rightarrow> 64 word list" where
  "issues (Call name email role) s = []"
| "issues (Step i now) s =
     (if i < length (futures s) \<and> is_Launched (futures s ! i)
      then [fst (fetch_add (manager s))] else [])"
| "issues (Throw i) s =
     (if i < length (futures s) \<and> is_Launched (futures s ! i)
      then [fst (fetch_add (manager s))] else [])"

fun issued :: "event list \<Rightarrow> system \<Rightarrow> 64 word list" where
  "issued [] s = []"
| "issued (e # es) s = issues e s @ issued es (exec e s)"

text \<open>
  A step writes to the collection when it is the step of an allocated task that does
  not throw: the one that calls \<open>addUser\<close>.
\<close>

fun inserts :: "event \<Rightarrow> system \<Rightarrow> bool" where
  "inserts (Call name email role) s = False"
| "inserts (Step i now) s =
     (i < length (futures s) \<and> is_Allocated (futures s ! i))"
| "inserts (Throw i) s = False"

fun no_insert :: "event list \<Rightarrow> system \<Rightarrow> bool" where
  "no_insert [] s = True"
| "no_insert (e # es) s = (\<not> inserts e s \<and> no_insert es (exec e s))"

text \<open>
  The size of a vector is a \<open>size_t\<close>, of 64 bits at most: a vector holds no more
  than \<open>SIZE_MAX\<close> elements.
\<close>

definition SIZE_MAX :: nat where
  "SIZE_MAX = 2 ^ 64 - 1"

text \<open>
  Two calls whose tasks interleave: the second call's task takes its identifier first,
  the first call's task inserts its user first; both return.
\<close>

definition two_calls :: "event list" where
  "two_calls =
     [Call ''Alice'' ''a@x.com'' (Some ADMIN), Call ''Bob'' ''b@x.com'' None,
      Step 1 5, Step 0 6, Step 0 7, Step 1 8, Step 1 9, Step 0 10]"

text \<open>
  One call whose task has put its user into the collection and has not returned yet,
  and the same call when the print then throws.
\<close>

definition stored_not_returned :: "event list" where
  "stored_not_returned = [Call ''Alice'' ''a@x.com'' (Some ADMIN), Step 0 5, Step 0 6]"

definition print_throws :: "event list" where
  "print_throws = [Call ''Alice'' ''a@x.com'' (Some ADMIN), Step 0 5, Step 0 6, Throw 0]"

text \<open>Two invariants of the system: the collection holds exactly the users that the
  tasks have inserted, and the counter is one more than the number of identifiers
  handed out so far.\<close>

definition store_inv :: "system \<Rightarrow> bool" where
  "store_inv s \<longleftrightarrow>
     mset (users_c (users_m (manager s))) = mset (inserted (futures s))"

definition counter_inv :: "system \<Rightarrow> bool" where
  "counter_inv s \<longleftrightarrow>
     next_id_m (manager s) = of_nat (Suc (length (numbered (futures s))))"

section \<open>Searching and filtering a collection\<close>

lemma copy_if_filter: "copy_if xs result pred = result @ filter pred xs"
  by (induction xs arbitrary: result) simp_all

lemma filterUsers_filter: "filterUsers pred c = filter pred (users_c c)"
  by (simp add: filterUsers_def copy_if_filter)

lemma find_if_le: "find_if xs pred \<le> length xs"
  by (induction xs) simp_all

lemma find_if_hit: "find_if xs pred < length xs \<Longrightarrow> pred (xs ! find_if xs pred)"
  by (induction xs) (simp_all split: if_splits)

lemma find_if_before: "j < find_if xs pred \<Longrightarrow> \<not> pred (xs ! j)"
proof (induction xs arbitrary: j)
  case Nil
  then show ?case by simp
next
  case (Cons x xs)
  then show ?case by (cases j) (auto split: if_splits)
qed

lemma find_if_end: "find_if xs pred = length xs \<longleftrightarrow> (\<forall>x \<in> set xs. \<not> pred x)"
  by (induction xs) simp_all

lemma find_if_filter:
  "(if find_if xs pred \<noteq> length xs then Some (xs ! find_if xs pred) else None) =
   (case filter pred xs of [] \<Rightarrow> None | x # ys \<Rightarrow> Some x)"
  by (induction xs) (auto split: if_splits)

lemma findUser_filter:
  "findUser pred c = (case filter pred (users_c c) of [] \<Rightarrow> None | x # ys \<Rightarrow> Some x)"
  unfolding findUser_def Let_def by (rule find_if_filter)

text \<open>
  Claim C4. For every predicate and every collection, \<open>filterUsers\<close> returns exactly
  the stored records that satisfy the predicate, each as often as it is stored and in
  the order of insertion; the result is a list of values of its own, and the collection
  is as it was.
\<close>

theorem filterUsers_in_order:
  "filterUsers pred c = filter pred (users_c c) \<and>
   set (filterUsers pred c) = {user \<in> set (users_c c). pred user} \<and>
   subseq (filterUsers pred c) (users_c c) \<and>
   invoke (FilterUsers pred) c = (Matches (filterUsers pred c), c)"
  by (simp add: filterUsers_filter)

theorem filterUsers_in_order_witness:
  "filterUsers even \<lparr>users_c = [3, 4, 1, 6, 4 :: nat]\<rparr> = [4, 6, 4]"
  using filterUsers_in_order [of even "\<lparr>users_c = [3, 4, 1, 6, 4 :: nat]\<rparr>"] by simp

lemma findUser_None_iff:
  "findUser pred c = None \<longleftrightarrow> (\<forall>user \<in> set (users_c c). \<not> pred user)"
  by (simp add: findUser_def Let_def find_if_end)

lemma findUser_SomeD:
  assumes "findUser pred c = Some user"
  shows "\<exists>i < length (users_c c). users_c c ! i = user \<and> pred user \<and>
           (\<forall>j < i. \<not> pred (users_c c ! j))"
proof -
  let ?xs = "users_c c"
  from assms have ne: "find_if ?xs pred \<noteq> length ?xs" and u: "?xs ! find_if ?xs pred = user"
    by (auto simp: findUser_def Let_def split: if_splits)
  from ne find_if_le [of ?xs pred] have lt: "find_if ?xs pred < length ?xs" by simp
  with u find_if_hit [OF lt] find_if_before [of _ ?xs pred] show ?thesis by blast
qed

lemma findUser_Some_in_set:
  "findUser pred c = Some user \<Longrightarrow> user \<in> set (users_c c) \<and> pred user"
  using findUser_SomeD [of pred c user] by (auto simp: in_set_conv_nth)

text \<open>
  Claim C5. For every predicate and every collection, \<open>findUser\<close> walks the records
  in the order of insertion: it returns nothing exactly when no record satisfies the
  predicate, and otherwise the record at the first position whose record satisfies it;
  the collection is as it was.
\<close>

theorem findUser_first_match:
  "(findUser pred c = None \<longleftrightarrow> (\<forall>user \<in> set (users_c c). \<not> pred user)) \<and>
   (\<forall>user. findUser pred c = Some user \<longrightarrow>
      (\<exists>i < length (users_c c). users_c c ! i = user \<and> pred user \<and>
         (\<forall>j < i. \<not> pred (users_c c ! j)))) \<and>
   invoke (FindUser pred) c = (Found (findUser pred c), c)"
  using findUser_None_iff [of pred c] findUser_SomeD [of pred c] by simp

theorem findUser_first_match_witness:
  "findUser even \<lparr>users_c = [3, 4, 1, 6 :: nat]\<rparr> = Some 4 \<and>
   (\<exists>i < length [3, 4, 1, 6 :: nat]. [3, 4, 1, 6 :: nat] ! i = 4 \<and>
      (\<forall>j < i. \<not> even ([3, 4, 1, 6 :: nat] ! j)))"
proof -
  have found: "findUser even \<lparr>users_c = [3, 4, 1, 6 :: nat]\<rparr> = Some 4"
    by (simp add: findUser_def)
  from found findUser_first_match [of even "\<lparr>users_c = [3, 4, 1, 6 :: nat]\<rparr>"]
  have "\<exists>i < length [3, 4, 1, 6 :: nat]. [3, 4, 1, 6 :: nat] ! i = 4 \<and> even (4 :: nat) \<and>
      (\<forall>j < i. \<not> even ([3, 4, 1, 6 :: nat] ! j))"
    by simp
  with found show ?thesis by blast
qed

text \<open>
  Claim C10. \<open>findUser\<close> and \<open>filterUsers\<close> agree for every predicate and every
  collection: \<open>findUser\<close> returns nothing if and only if \<open>filterUsers\<close> returns the
  empty list, and otherwise \<open>findUser\<close> returns the first element of what
  \<open>filterUsers\<close> returns.
\<close>

theorem findUser_agrees_with_filterUsers:
  "(findUser pred c = None \<longleftrightarrow> filterUsers pred c = []) \<and>
   (filterUsers pred c \<noteq> [] \<longrightarrow> findUser pred c = Some (hd (filterUsers pred c))) \<and>
   findUser pred c = (case filterUsers pred c of [] \<Rightarrow> None | user # rest \<Rightarrow> Some user)"
  by (simp add: findUser_filter filterUsers_filter split: list.splits)

theorem findUser_agrees_with_filterUsers_witness:
  "filterUsers even \<lparr>users_c = [3, 4, 1, 6 :: nat]\<rparr> \<noteq> [] \<and>
   findUser even \<lparr>users_c = [3, 4, 1, 6 :: nat]\<rparr> = Some 4"
proof -
  have "filterUsers even \<lparr>users_c = [3, 4, 1, 6 :: nat]\<rparr> = [4, 6]"
    by (simp add: filterUsers_def)
  with findUser_agrees_with_filterUsers [of even "\<lparr>users_c = [3, 4, 1, 6 :: nat]\<rparr>"]
  show ?thesis by simp
qed

section \<open>Adding to a collection\<close>

text \<open>
  Claim C6. For every record and every collection, \<open>addUser\<close> (either overload) has
  no failing branch, and the collection after it is the old sequence with the record
  appended at the end: one record more, every earlier record unchanged at its position.
\<close>

theorem addUser_appends:
  "users_c (addUser user c) = users_c c @ [user] \<and>
   users_c (addUser_move user c) = users_c c @ [user] \<and>
   size_c (addUser user c) = size_c c + 1 \<and>
   take (size_c c) (users_c (addUser user c)) = users_c c \<and>
   (\<forall>i < size_c c. users_c (addUser user c) ! i = users_c c ! i) \<and>
   users_c (addUser user c) ! size_c c = user \<and>
   invoke (AddUser user) c = (Done, addUser user c)"
  by (simp add: addUser_def addUser_move_def size_c_def nth_append)

theorem addUser_appends_witness:
  "users_c (addUser (7 :: nat) \<lparr>users_c = [3, 4]\<rparr>) = [3, 4, 7] \<and>
   users_c (addUser (7 :: nat) \<lparr>users_c = [3, 4]\<rparr>) ! 1 = 4"
  using addUser_appends [of "7 :: nat" "\<lparr>users_c = [3, 4]\<rparr>"]
  by (simp add: size_c_def)

section \<open>Statistics\<close>

text \<open>
  Claim C3. For every state of the manager, \<open>getStatistics\<close> returns as total the
  size of the collection, as active users the number of stored records whose status is
  \<open>ACTIVE\<close>, as admin users the number of stored records whose role is \<open>ADMIN\<close>,
  and as average per day the total divided by the constant 30.
\<close>

theorem getStatistics_counts:
  "total_users (getStatistics m) = size_c (users_m m) \<and>
   active_users (getStatistics m) =
     card {i. i < size_c (users_m m) \<and> status_u (users_c (users_m m) ! i) = ACTIVE} \<and>
   admin_users (getStatistics m) =
     card {i. i < size_c (users_m m) \<and> role_u (users_c (users_m m) ! i) = ADMIN} \<and>
   avg_users_per_day (getStatistics m) = real (total_users (getStatistics m)) / 30"
  by (simp add: getStatistics_def getActiveUsers_def getUsersByRole_def filterUsers_filter
      isActive_def getRole_def size_c_def length_filter_conv_card)

lemmas model_defs = init_def UserManager_ctor_def fetch_add_def addUser_def
  role_or_default_def

lemma run_two_calls:
  "run two_calls (init Map.empty) =
     \<lparr>manager = \<lparr>users_m = \<lparr>users_c = [User_ctor 2 ''Alice'' ''a@x.com'' ADMIN 6,
                                         User_ctor 1 ''Bob'' ''b@x.com'' USER 5]\<rparr>,
                 next_id_m = 3, config_m = Map.empty\<rparr>,
      futures = [Completed (User_ctor 2 ''Alice'' ''a@x.com'' ADMIN 6),
                 Completed (User_ctor 1 ''Bob'' ''b@x.com'' USER 5)]\<rparr>"
  by (simp add: two_calls_def model_defs)

theorem getStatistics_counts_witness:
  "total_users (getStatistics (manager (run two_calls (init Map.empty)))) = 2 \<and>
   active_users (getStatistics (manager (run two_calls (init Map.empty)))) = 2 \<and>
   admin_users (getStatistics (manager (run two_calls (init Map.empty)))) = 1 \<and>
   avg_users_per_day (getStatistics (manager (run two_calls (init Map.empty)))) = 2 / 30"
proof -
  let ?m = "manager (run two_calls (init Map.empty))"
  have size: "size_c (users_m ?m) = 2"
    by (simp add: run_two_calls size_c_def)
  have active: "active_users (getStatistics ?m) = 2"
    by (simp add: run_two_calls getStatistics_def getActiveUsers_def filterUsers_def
        isActive_def User_ctor_def)
  have admins: "admin_users (getStatistics ?m) = 1"
    by (simp add: run_two_calls getStatistics_def getUsersByRole_def filterUsers_def
        getRole_def User_ctor_def)
  from getStatistics_counts [of ?m] size have total: "total_users (getStatistics ?m) = 2"
    by simp
  from getStatistics_counts [of ?m] total
  have "avg_users_per_day (getStatistics ?m) = 2 / 30" by simp
  with total active admins show ?thesis by simp
qed

section \<open>Identifiers and the tasks of createUserAsync\<close>

text \<open>What replacing one task does to a list gathered from all tasks.\<close>

lemma mset_concat_map_update:
  "i < length ts \<Longrightarrow>
   mset (concat (map f (ts[i := t]))) + mset (f (ts ! i)) =
   mset (concat (map f ts)) + mset (f t)"
proof (induction ts arbitrary: i)
  case Nil
  then show ?case by simp
next
  case (Cons a ts)
  show ?case
  proof (cases i)
    case 0
    then show ?thesis by simp
  next
    case (Suc j)
    with Cons.prems have "j < length ts" by simp
    from Cons.IH [OF this] Suc show ?thesis by (simp add: ac_simps)
  qed
qed

lemma mset_concat_map_extend:
  assumes "i < length ts" and "f t = f (ts ! i) @ new"
  shows "mset (concat (map f (ts[i := t]))) = mset (concat (map f ts)) + mset new"
  using mset_concat_map_update [OF assms(1), of f t] assms(2) by simp

text \<open>What one step does to a task and to the manager.\<close>

lemma step_task_stored:
  assumes "step_task now t m = (t', m')"
  shows "\<exists>new. task_stored t' = task_stored t @ new \<and>
           users_c (users_m m') = users_c (users_m m) @ new \<and>
           (new = [] \<or> (\<exists>user. t = Allocated user \<and> new = [user]))"
  using assms by (cases t) (auto simp: fetch_add_def addUser_def)

lemma throw_task_stored:
  assumes "throw_task t m = (t', m')"
  shows "task_stored t' = task_stored t \<and> users_m m' = users_m m"
  using assms by (cases t) (auto simp: fetch_add_def)

lemma step_task_id:
  assumes "step_task now t m = (t', m')"
  shows "task_id t' = task_id t @ (if is_Launched t then [next_id_m m] else []) \<and>
         next_id_m m' = (if is_Launched t then next_id_m m + 1 else next_id_m m)"
  using assms by (cases t) (auto simp: fetch_add_def User_ctor_def)

lemma throw_task_id:
  assumes "throw_task t m = (t', m')"
  shows "task_id t' = task_id t @ (if is_Launched t then [next_id_m m] else []) \<and>
         next_id_m m' = (if is_Launched t then next_id_m m + 1 else next_id_m m)"
  using assms by (cases t) (auto simp: fetch_add_def)

text \<open>Every event appends to the collection nothing or the whole user of the
  allocated task that takes its step.\<close>

lemma exec_store:
  "\<exists>new. users_c (users_m (manager (exec e s))) = users_c (users_m (manager s)) @ new \<and>
         mset (inserted (futures (exec e s))) = mset (inserted (futures s)) + mset new \<and>
         (new = [] \<or> (\<exists>i now user. e = Step i now \<and> i < length (futures s) \<and>
                        futures s ! i = Allocated user \<and> new = [user]))"
proof (cases e)
  case (Call n em r)
  then show ?thesis by (simp add: inserted_def)
next
  case (Step i now)
  show ?thesis
  proof (cases "i < length (futures s)")
    case False
    with Step show ?thesis by simp
  next
    case True
    obtain t' m' where st: "step_task now (futures s ! i) (manager s) = (t', m')"
      by (cases "step_task now (futures s ! i) (manager s)")
    from step_task_stored [OF st] obtain new where
      new: "task_stored t' = task_stored (futures s ! i) @ new"
        "users_c (users_m m') = users_c (users_m (manager s)) @ new"
        "new = [] \<or> (\<exists>user. futures s ! i = Allocated user \<and> new = [user])"
      by blast
    have "mset (inserted ((futures s)[i := t'])) = mset (inserted (futures s)) + mset new"
      unfolding inserted_def using True new(1) by (rule mset_concat_map_extend)
    with Step True st new(2,3) show ?thesis by auto
  qed
next
  case (Throw i)
  show ?thesis
  proof (cases "i < length (futures s)")
    case False
    with Throw show ?thesis by simp
  next
    case True
    obtain t' m' where st: "throw_task (futures s ! i) (manager s) = (t', m')"
      by (cases "throw_task (futures s ! i) (manager s)")
    from throw_task_stored [OF st]
    have same: "task_stored t' = task_stored (futures s ! i) @ []" "users_m m' = users_m (manager s)"
      by simp_all
    have "mset (inserted ((futures s)[i := t'])) = mset (inserted (futures s)) + mset []"
      unfolding inserted_def using True same(1) by (rule mset_concat_map_extend)
    with Throw True st same(2) show ?thesis by simp
  qed
qed

lemma exec_store_inv: "store_inv s \<Longrightarrow> store_inv (exec e s)"
  using exec_store [of e s] by (auto simp: store_inv_def)

lemma run_store_inv: "store_inv s \<Longrightarrow> store_inv (run es s)"
  by (induction es arbitrary: s) (simp_all add: exec_store_inv)

text \<open>Every event keeps the counter one ahead of the identifiers taken; an event that
  issues an identifier issues the next number.\<close>

lemma exec_numbered:
  "mset (numbered (futures (exec e s))) = mset (numbered (futures s)) + mset (issues e s) \<and>
   next_id_m (manager (exec e s)) = next_id_m (manager s) + of_nat (length (issues e s)) \<and>
   issues e s = (if issues e s = [] then [] else [next_id_m (manager s)])"
proof (cases e)
  case (Call n em r)
  then show ?thesis by (simp add: numbered_def)
next
  case (Step i now)
  show ?thesis
  proof (cases "i < length (futures s)")
    case False
    with Step show ?thesis by simp
  next
    case True
    obtain t' m' where st: "step_task now (futures s ! i) (manager s) = (t', m')"
      by (cases "step_task now (futures s ! i) (manager s)")
    let ?new = "if is_Launched (futures s ! i) then [next_id_m (manager s)] else []"
    from step_task_id [OF st]
    have ids: "task_id t' = task_id (futures s ! i) @ ?new"
      and nxt: "next_id_m m' =
        (if is_Launched (futures s ! i) then next_id_m (manager s) + 1 else next_id_m (manager s))"
      by simp_all
    have "mset (numbered ((futures s)[i := t'])) = mset (numbered (futures s)) + mset ?new"
      unfolding numbered_def using True ids by (rule mset_concat_map_extend)
    with Step True st nxt show ?thesis by (simp add: fetch_add_def)
  qed
next
  case (Throw i)
  show ?thesis
  proof (cases "i < length (futures s)")
    case False
    with Throw show ?thesis by simp
  next
    case True
    obtain t' m' where st: "throw_task (futures s ! i) (manager s) = (t', m')"
      by (cases "throw_task (futures s ! i) (manager s)")
    let ?new = "if is_Launched (futures s ! i) then [next_id_m (manager s)] else []"
    from throw_task_id [OF st]
    have ids: "task_id t' = task_id (futures s ! i) @ ?new"
      and nxt: "next_id_m m' =
        (if is_Launched (futures s ! i) then next_id_m (manager s) + 1 else next_id_m (manager s))"
      by simp_all
    have "mset (numbered ((futures s)[i := t'])) = mset (numbered (futures s)) + mset ?new"
      unfolding numbered_def using True ids by (rule mset_concat_map_extend)
    with Throw True st nxt show ?thesis by (simp add: fetch_add_def)
  qed
qed

lemma exec_counter:
  assumes "counter_inv s"
  shows "counter_inv (exec e s) \<and>
    issues e s = map of_nat [Suc (length (numbered (futures s))) ..<
                             Suc (length (numbered (futures (exec e s))))] \<and>
    length (numbered (futures s)) \<le> length (numbered (futures (exec e s))) \<and>
    mset (numbered (futures (exec e s))) = mset (numbered (futures s)) + mset (issues e s)"
proof -
  note facts = exec_numbered [of e s]
  from facts have ms: "mset (numbered (futures (exec e s))) =
      mset (numbered (futures s)) + mset (issues e s)" by simp
  then have "size (mset (numbered (futures (exec e s)))) =
      size (mset (numbered (futures s)) + mset (issues e s))" by simp
  then have len: "length (numbered (futures (exec e s))) =
      length (numbered (futures s)) + length (issues e s)" by simp
  show ?thesis
  proof (cases "issues e s = []")
    case True
    with facts assms len ms show ?thesis by (simp add: counter_inv_def)
  next
    case False
    with facts have one: "issues e s = [next_id_m (manager s)]" by metis
    with facts assms len ms show ?thesis by (simp add: counter_inv_def)
  qed
qed

lemma run_counter:
  "counter_inv s \<Longrightarrow>
   counter_inv (run es s) \<and>
   issued es s = map of_nat [Suc (length (numbered (futures s))) ..<
                             Suc (length (numbered (futures (run es s))))] \<and>
   length (numbered (futures s)) \<le> length (numbered (futures (run es s))) \<and>
   mset (numbered (futures (run es s))) = mset (numbered (futures s)) + mset (issued es s)"
proof (induction es arbitrary: s)
  case Nil
  then show ?case by simp
next
  case (Cons e es)
  note step = exec_counter [OF Cons.prems, of e]
  from step have inv': "counter_inv (exec e s)" by simp
  note rest = Cons.IH [OF inv']
  let ?a = "length (numbered (futures s))"
  let ?b = "length (numbered (futures (exec e s)))"
  let ?c = "length (numbered (futures (run es (exec e s))))"
  have ab: "?a \<le> ?b" using step by simp
  have bc: "?b \<le> ?c" using rest by simp
  have "[Suc ?a..<Suc ?c] = [Suc ?a..<Suc ?b] @ [Suc ?b..<Suc ?c]"
    using ab bc by (metis Suc_le_mono le_Suc_ex upt_add_eq_append)
  then have "issued (e # es) s = map of_nat [Suc ?a..<Suc ?c]"
    using step rest by simp
  moreover have "mset (numbered (futures (run (e # es) s))) =
     mset (numbered (futures s)) + mset (issued (e # es) s)"
    using step rest by simp
  ultimately show ?case using rest ab bc by simp
qed

lemma init_invs: "store_inv (init config) \<and> counter_inv (init config)"
  by (simp add: store_inv_def counter_inv_def init_def UserManager_ctor_def
      inserted_def numbered_def)

lemma all_completed:
  "list_all is_Completed ts \<Longrightarrow>
   numbered ts = map id_u (completed ts) \<and> inserted ts = completed ts \<and>
   length (completed ts) = length ts"
proof (induction ts)
  case Nil
  then show ?case by (simp add: numbered_def inserted_def completed_def)
next
  case (Cons t ts)
  then show ?case by (cases t) (simp_all add: numbered_def inserted_def completed_def)
qed

lemma unat_ids:
  assumes "n < 2 ^ 64"
  shows "map unat (map of_nat [1..<Suc n] :: 64 word list) = [1..<Suc n]"
proof -
  have "unat (of_nat k :: 64 word) = k" if "k \<in> set [1..<Suc n]" for k
  proof -
    from that have "k \<le> n" by auto
    then have "k < 2 ^ 64" using assms by (rule le_less_trans)
    then have "k < 2 ^ LENGTH(64)" by simp
    then show ?thesis by (rule of_nat_inverse [OF refl])
  qed
  then have "map (\<lambda>k. unat (of_nat k :: 64 word)) [1..<Suc n] = map (\<lambda>k. k) [1..<Suc n]"
    by (intro map_cong) simp_all
  then show ?thesis by (simp add: comp_def)
qed

lemma set_ids: "set [1..<Suc n] = {1..n}"
  by (simp only: set_upt atLeastLessThanSuc_atLeastAtMost)

lemma distinct_of_map: "distinct (map f xs) \<Longrightarrow> distinct xs"
  by (simp add: distinct_map)

lemma sorted_words:
  "sorted_wrt (<) (map unat ws) \<Longrightarrow> sorted_wrt (<) (ws :: 64 word list)"
  by (simp add: sorted_wrt_map word_less_nat_alt [symmetric])

text \<open>
  Claim C1. Take any interleaving of calls of \<open>createUserAsync\<close> and steps of their
  tasks on a fresh manager, after which all \<open>n\<close> calls have completed, the vector
  holding their \<open>n\<close> users as a vector can (its size is a \<open>size_t\<close>). Then the
  identifiers of the \<open>n\<close> created users are exactly the numbers \<open>1, \<dots>, n\<close>, no
  two users share one, they are the identifiers that \<open>fetch_add\<close> issued, and the
  \<open>k\<close>-th identifier issued is \<open>k\<close>: identifiers increase strictly in the order
  of issue, whatever the order of completion.
\<close>

theorem createUserAsync_identifiers:
  assumes s: "s = run evs (init config)"
    and n: "n = length (futures s)"
    and all: "list_all is_Completed (futures s)"
    and fits: "size_c (users_m (manager s)) \<le> SIZE_MAX"
  shows "length (completed (futures s)) = n \<and>
         unat ` id_u ` set (completed (futures s)) = {1..n} \<and>
         distinct (map id_u (completed (futures s))) \<and>
         mset (map id_u (completed (futures s))) = mset (issued evs (init config)) \<and>
         map unat (issued evs (init config)) = [1..<Suc n] \<and>
         sorted_wrt (<) (issued evs (init config))"
proof -
  let ?done = "completed (futures s)"
  let ?iss = "issued evs (init config)"
  from all have nc: "numbered (futures s) = map id_u ?done"
    and ic: "inserted (futures s) = ?done" and len: "length ?done = n"
    using all_completed [of "futures s"] n by simp_all
  have "store_inv (init config)" using init_invs by simp
  then have "store_inv s" unfolding s by (rule run_store_inv)
  then have "size (mset (users_c (users_m (manager s)))) = size (mset ?done)"
    by (simp only: store_inv_def ic)
  then have "size_c (users_m (manager s)) = n" by (simp add: size_c_def len)
  with fits have bound: "n < 2 ^ 64" by (simp add: SIZE_MAX_def)
  have c0: "counter_inv (init config)" using init_invs by simp
  have a0: "numbered (futures (init config)) = []" by (simp add: init_def numbered_def)
  from run_counter [OF c0, of evs] a0 s nc len
  have iss: "?iss = map of_nat [1..<Suc n]"
    and ms: "mset (map id_u ?done) = mset ?iss"
    by simp_all
  have un: "map unat ?iss = [1..<Suc n]"
    unfolding iss using bound by (rule unat_ids)
  have "distinct (map unat ?iss)" unfolding un by (rule distinct_upt)
  then have di: "distinct ?iss" by (rule distinct_of_map)
  have dd: "distinct (map id_u ?done)"
    using di mset_eq_imp_distinct_iff [OF ms] by blast
  have "set (map id_u ?done) = set ?iss"
    using ms by (rule mset_eq_setD)
  then have "unat ` set (map id_u ?done) = set (map unat ?iss)"
    by (simp only: set_map)
  then have "unat ` id_u ` set ?done = set [1..<Suc n]"
    by (simp only: un set_map)
  then have ids: "unat ` id_u ` set ?done = {1..n}"
    by (simp only: set_ids)
  have "sorted_wrt (<) (map unat ?iss)" unfolding un by (rule sorted_wrt_upt)
  then have so: "sorted_wrt (<) ?iss" by (rule sorted_words)
  from len ids dd ms un so show ?thesis by blast
qed

lemma issued_two_calls: "issued two_calls (init Map.empty) = [1, 2]"
  by (simp add: two_calls_def model_defs)

theorem createUserAsync_identifiers_witness:
  "list_all is_Completed (futures (run two_calls (init Map.empty))) \<and>
   size_c (users_m (manager (run two_calls (init Map.empty)))) \<le> SIZE_MAX \<and>
   map id_u (completed (futures (run two_calls (init Map.empty)))) = [2, 1] \<and>
   unat ` id_u ` set (completed (futures (run two_calls (init Map.empty)))) = {1..2} \<and>
   distinct (map id_u (completed (futures (run two_calls (init Map.empty))))) \<and>
   map unat (issued two_calls (init Map.empty)) = [1..<Suc 2]"
proof -
  have all: "list_all is_Completed (futures (run two_calls (init Map.empty)))"
    by (simp add: run_two_calls)
  have len: "2 = length (futures (run two_calls (init Map.empty)))"
    by (simp add: run_two_calls)
  have fits: "size_c (users_m (manager (run two_calls (init Map.empty)))) \<le> SIZE_MAX"
    by (simp add: run_two_calls size_c_def SIZE_MAX_def)
  have ids: "map id_u (completed (futures (run two_calls (init Map.empty)))) = [2, 1]"
    by (simp add: run_two_calls User_ctor_def completed_def)
  note inst = createUserAsync_identifiers [OF refl len all fits]
  from all fits ids inst show ?thesis by blast
qed

section \<open>Looking a user up\<close>

lemma run_init_store:
  "set (users_c (users_m (manager (run evs (init config))))) =
   set (inserted (futures (run evs (init config))))"
proof -
  have "store_inv (init config)" using init_invs by simp
  then have "store_inv (run evs (init config))" by (rule run_store_inv)
  then show ?thesis unfolding store_inv_def by (rule mset_eq_setD)
qed

lemma completed_inserted: "set (completed ts) \<subseteq> set (inserted ts)"
proof (induction ts)
  case Nil
  show ?case by (simp add: completed_def)
next
  case (Cons t ts)
  then show ?case by (cases t) (auto simp: completed_def inserted_def)
qed

lemma inserted_all_returned:
  "\<not> list_ex stored_unreturned ts \<Longrightarrow> inserted ts = completed ts"
proof (induction ts)
  case Nil
  show ?case by (simp add: completed_def inserted_def)
next
  case (Cons t ts)
  then show ?case by (cases t) (simp_all add: completed_def inserted_def)
qed

lemma run_stored_not_returned:
  "run stored_not_returned (init Map.empty) =
     \<lparr>manager = \<lparr>users_m = \<lparr>users_c = [User_ctor 1 ''Alice'' ''a@x.com'' ADMIN 5]\<rparr>,
                 next_id_m = 2, config_m = Map.empty\<rparr>,
      futures = [Inserted (User_ctor 1 ''Alice'' ''a@x.com'' ADMIN 5)]\<rparr>"
  by (simp add: stored_not_returned_def model_defs)

lemma run_print_throws:
  "run print_throws (init Map.empty) =
     \<lparr>manager = \<lparr>users_m = \<lparr>users_c = [User_ctor 1 ''Alice'' ''a@x.com'' ADMIN 5]\<rparr>,
                 next_id_m = 2, config_m = Map.empty\<rparr>,
      futures = [Failed_Print (User_ctor 1 ''Alice'' ''a@x.com'' ADMIN 5)]\<rparr>"
  by (simp add: print_throws_def model_defs)

text \<open>
  Claim C2, as it holds. In every state that a fresh manager reaches by calls of
  \<open>createUserAsync\<close> and steps of their tasks, \<open>findUserById\<close> returns a record
  for an identifier if and only if some task has inserted a user of that identifier
  (its \<open>addUser\<close> has run), and the record it returns is such a user. Every call that
  has completed has inserted its user, so the identifier of every completed call is
  found. When no task stands between its \<open>addUser\<close> and its return, and none has
  thrown while printing, \<open>findUserById\<close> returns a record if and only if some call
  has completed with that identifier. On the fresh manager, whose collection is empty,
  it returns nothing for every identifier, 999 among them.
\<close>

theorem findUserById_iff_inserted:
  "((\<exists>user. findUserById ident (manager (run evs (init config))) = Some user) \<longleftrightarrow>
      (\<exists>user \<in> set (inserted (futures (run evs (init config)))). id_u user = ident)) \<and>
   (\<forall>user. findUserById ident (manager (run evs (init config))) = Some user \<longrightarrow>
      id_u user = ident \<and> user \<in> set (inserted (futures (run evs (init config))))) \<and>
   (\<forall>user \<in> set (completed (futures (run evs (init config)))).
      \<exists>found. findUserById (id_u user) (manager (run evs (init config))) = Some found \<and>
        id_u found = id_u user) \<and>
   (\<not> list_ex stored_unreturned (futures (run evs (init config))) \<longrightarrow>
      ((\<exists>user. findUserById ident (manager (run evs (init config))) = Some user) \<longleftrightarrow>
       (\<exists>user \<in> set (completed (futures (run evs (init config)))). id_u user = ident))) \<and>
   findUserById ident (manager (init config)) = None \<and>
   findUserById 999 (manager (init config)) = None"
proof -
  let ?s = "run evs (init config)"
  note st = run_init_store [of evs config]
  have some: "id_u user = i \<and> user \<in> set (inserted (futures ?s))"
    if "findUserById i (manager ?s) = Some user" for user i
    using that findUser_Some_in_set [of "\<lambda>user. getId user = i" "users_m (manager ?s)" user] st
    by (simp add: findUserById_def getId_def)
  have none: "findUserById i (manager ?s) = None \<longleftrightarrow>
      (\<forall>user \<in> set (inserted (futures ?s)). id_u user \<noteq> i)" for i
    using findUser_None_iff [of "\<lambda>user. getId user = i" "users_m (manager ?s)"] st
    by (simp add: findUserById_def getId_def)
  have iff: "(\<exists>user. findUserById i (manager ?s) = Some user) \<longleftrightarrow>
      (\<exists>user \<in> set (inserted (futures ?s)). id_u user = i)" for i
    using none [of i] by (cases "findUserById i (manager ?s)") auto
  have c1: "(\<exists>user. findUserById ident (manager ?s) = Some user) \<longleftrightarrow>
      (\<exists>user \<in> set (inserted (futures ?s)). id_u user = ident)"
    by (rule iff)
  have c2: "\<forall>user. findUserById ident (manager ?s) = Some user \<longrightarrow>
      id_u user = ident \<and> user \<in> set (inserted (futures ?s))"
    using some by blast
  have c3: "\<forall>user \<in> set (completed (futures ?s)).
      \<exists>found. findUserById (id_u user) (manager ?s) = Some found \<and> id_u found = id_u user"
  proof
    fix user assume "user \<in> set (completed (futures ?s))"
    with completed_inserted [of "futures ?s"] have "user \<in> set (inserted (futures ?s))"
      by blast
    with iff [of "id_u user"] obtain found
      where "findUserById (id_u user) (manager ?s) = Some found" by blast
    with some [of "id_u user" found]
    show "\<exists>found. findUserById (id_u user) (manager ?s) = Some found \<and> id_u found = id_u user"
      by blast
  qed
  have c4: "\<not> list_ex stored_unreturned (futures ?s) \<longrightarrow>
      ((\<exists>user. findUserById ident (manager ?s) = Some user) \<longleftrightarrow>
       (\<exists>user \<in> set (completed (futures ?s)). id_u user = ident))"
    using iff [of ident] inserted_all_returned [of "futures ?s"] by simp
  have empty: "findUserById i (manager (init config)) = None" for i
    by (simp add: findUserById_def findUser_def init_def UserManager_ctor_def)
  have e1: "findUserById ident (manager (init config)) = None" by (rule empty)
  have e2: "findUserById 999 (manager (init config)) = None" by (rule empty)
  show ?thesis by (intro conjI; fact)
qed

theorem findUserById_iff_inserted_witness:
  "findUserById 2 (manager (run two_calls (init Map.empty))) =
     Some (User_ctor 2 ''Alice'' ''a@x.com'' ADMIN 6) \<and>
   \<not> list_ex stored_unreturned (futures (run two_calls (init Map.empty))) \<and>
   (\<exists>user \<in> set (completed (futures (run two_calls (init Map.empty)))). id_u user = 2) \<and>
   findUserById 999 (manager (init Map.empty)) = None"
proof -
  have found: "findUserById 2 (manager (run two_calls (init Map.empty))) =
     Some (User_ctor 2 ''Alice'' ''a@x.com'' ADMIN 6)"
    by (simp add: run_two_calls findUserById_def findUser_def getId_def User_ctor_def)
  have quiet: "\<not> list_ex stored_unreturned (futures (run two_calls (init Map.empty)))"
    by (simp add: run_two_calls)
  from found quiet findUserById_iff_inserted [of 2 two_calls Map.empty] show ?thesis
    by blast
qed

text \<open>
  The claim as the specification has it, with "completed" for "inserted", does not
  hold: after its \<open>addUser\<close> and before its return a task's user is found although
  the call has not completed, and if the print throws the call never completes and
  the user stays found.
\<close>

theorem findUserById_iff_completed_counterexample:
  "findUserById 1 (manager (run stored_not_returned (init Map.empty))) =
     Some (User_ctor 1 ''Alice'' ''a@x.com'' ADMIN 5) \<and>
   completed (futures (run stored_not_returned (init Map.empty))) = [] \<and>
   findUserById 1 (manager (run print_throws (init Map.empty))) =
     Some (User_ctor 1 ''Alice'' ''a@x.com'' ADMIN 5) \<and>
   completed (futures (run print_throws (init Map.empty))) = []"
  by (simp add: run_stored_not_returned run_print_throws findUserById_def findUser_def
      getId_def User_ctor_def completed_def)

section \<open>Repeating a query\<close>

lemma exec_no_insert: "\<not> inserts e s \<Longrightarrow> users_m (manager (exec e s)) = users_m (manager s)"
proof (cases e)
  case (Call n em r)
  then show ?thesis by simp
next
  case (Step i now)
  assume ni: "\<not> inserts e s"
  show ?thesis
  proof (cases "i < length (futures s)")
    case False
    with Step show ?thesis by simp
  next
    case True
    with Step ni show ?thesis
      by (cases "futures s ! i") (simp_all add: fetch_add_def)
  qed
next
  case (Throw i)
  show ?thesis
  proof (cases "i < length (futures s)")
    case False
    with Throw show ?thesis by simp
  next
    case True
    with Throw show ?thesis
      by (cases "futures s ! i") (simp_all add: fetch_add_def)
  qed
qed

lemma run_no_insert: "no_insert evs s \<Longrightarrow> users_m (manager (run evs s)) = users_m (manager s)"
  by (induction evs arbitrary: s) (simp_all add: exec_no_insert)

text \<open>
  Claim C9. A query asked again gives the same answer as long as nothing was written to
  the collection in between: whatever events happen between the two queries (calls that
  launch tasks, tasks taking their identifier), if none of them is the \<open>addUser\<close>
  step of a task, then \<open>findUserById\<close> and \<open>filterUsers\<close> (and the queries built
  on it) return what they returned before. The queries themselves change nothing: a
  second \<open>findUser\<close> or \<open>filterUsers\<close> right after the first meets the same
  collection and gives the same reply.
\<close>

theorem queries_repeatable:
  "no_insert evs s \<Longrightarrow>
   findUserById ident (manager (run evs s)) = findUserById ident (manager s) \<and>
   filterUsers pred (users_m (manager (run evs s))) = filterUsers pred (users_m (manager s)) \<and>
   getUsersByRole role (manager (run evs s)) = getUsersByRole role (manager s) \<and>
   getActiveUsers (manager (run evs s)) = getActiveUsers (manager s) \<and>
   invoke (FindUser p) (snd (invoke (FindUser p) c)) = invoke (FindUser p) c \<and>
   invoke (FilterUsers p) (snd (invoke (FilterUsers p) c)) = invoke (FilterUsers p) c"
  by (simp add: findUserById_def getUsersByRole_def getActiveUsers_def run_no_insert)

theorem queries_repeatable_witness:
  "no_insert [Call ''Carol'' ''c@x.com'' None, Step 2 9] (run two_calls (init Map.empty)) \<and>
   findUserById 1 (manager (run [Call ''Carol'' ''c@x.com'' None, Step 2 9]
                                (run two_calls (init Map.empty)))) =
     Some (User_ctor 1 ''Bob'' ''b@x.com'' USER 5) \<and>
   next_id_m (manager (run [Call ''Carol'' ''c@x.com'' None, Step 2 9]
                                (run two_calls (init Map.empty)))) = 4"
proof -
  have ni: "no_insert [Call ''Carol'' ''c@x.com'' None, Step 2 9] (run two_calls (init Map.empty))"
    by (simp add: run_two_calls)
  have before: "findUserById 1 (manager (run two_calls (init Map.empty))) =
      Some (User_ctor 1 ''Bob'' ''b@x.com'' USER 5)"
    by (simp add: run_two_calls findUserById_def findUser_def getId_def User_ctor_def)
  have counter: "next_id_m (manager (run [Call ''Carol'' ''c@x.com'' None, Step 2 9]
                                (run two_calls (init Map.empty)))) = 4"
    by (simp add: run_two_calls fetch_add_def role_or_default_def)
  from queries_repeatable [OF ni, of 1] before
  have "findUserById 1 (manager (run [Call ''Carol'' ''c@x.com'' None, Step 2 9]
                                (run two_calls (init Map.empty)))) =
     Some (User_ctor 1 ''Bob'' ''b@x.com'' USER 5)" by simp
  with ni counter show ?thesis by blast
qed

section \<open>Creating a user\<close>

lemma createUserAsync_result:
  "createUserAsync name email role now m =
     (User_ctor (next_id_m m) name email (role_or_default role) now,
      m\<lparr>next_id_m := next_id_m m + 1,
        users_m := addUser (User_ctor (next_id_m m) name email (role_or_default role) now)
                     (users_m m)\<rparr>)"
  by (simp add: createUserAsync_def fetch_add_def Let_def)

lemma createUserAsync_steps:
  assumes "createUserAsync name email role now m = (user, m')"
  shows "step_task now (Launched name email (role_or_default role)) m =
           (Allocated user, snd (fetch_add m)) \<and>
         step_task later (Allocated user) (snd (fetch_add m)) = (Inserted user, m') \<and>
         step_task after (Inserted user) m' = (Completed user, m')"
  using assms by (auto simp: createUserAsync_result fetch_add_def)

text \<open>
  Claim C7. For every name, email and role, \<open>createUserAsync\<close> (run to the end)
  returns a record whose status is \<open>ACTIVE\<close>, whose name, email and role are the
  arguments (the role \<open>USER\<close> when none is given) and whose identifier is the
  counter's value, which it leaves one higher; the record is appended to the
  collection, so that afterwards every query whose predicate the record satisfies
  returns it or finds a match: the active users and the users of its role contain it,
  looking up its identifier finds a record with that identifier (the record itself when
  no earlier record has it), and the total grows by one. The three steps of the task
  (allocate, insert, return) give the same user and the same manager.
\<close>

theorem createUserAsync_record:
  assumes "createUserAsync name email role now m = (user, m')"
  shows "status_u user = ACTIVE \<and> name_u user = name \<and> email_u user = email \<and>
         role_u user = (case role of None \<Rightarrow> USER | Some r \<Rightarrow> r) \<and>
         created_at_u user = now \<and>
         id_u user = next_id_m m \<and> next_id_m m' = next_id_m m + 1 \<and>
         users_c (users_m m') = users_c (users_m m) @ [user] \<and>
         user \<in> set (getActiveUsers m') \<and>
         user \<in> set (getUsersByRole (role_u user) m') \<and>
         (\<exists>found. findUserById (id_u user) m' = Some found \<and> id_u found = id_u user) \<and>
         ((\<forall>old \<in> set (users_c (users_m m)). id_u old \<noteq> next_id_m m) \<longrightarrow>
            findUserById (id_u user) m' = Some user) \<and>
         (\<forall>pred. pred user \<longrightarrow>
            user \<in> set (filterUsers pred (users_m m')) \<and> findUser pred (users_m m') \<noteq> None) \<and>
         total_users (getStatistics m') = total_users (getStatistics m) + 1 \<and>
         step_task now (Launched name email (role_or_default role)) m =
           (Allocated user, snd (fetch_add m)) \<and>
         step_task later (Allocated user) (snd (fetch_add m)) = (Inserted user, m') \<and>
         step_task after (Inserted user) m' = (Completed user, m')"
proof -
  from assms have user: "user = User_ctor (next_id_m m) name email (role_or_default role) now"
    and m': "m' = m\<lparr>next_id_m := next_id_m m + 1, users_m := addUser user (users_m m)\<rparr>"
    by (auto simp: createUserAsync_result)
  have fields: "status_u user = ACTIVE \<and> name_u user = name \<and> email_u user = email \<and>
         role_u user = (case role of None \<Rightarrow> USER | Some r \<Rightarrow> r) \<and>
         created_at_u user = now \<and> id_u user = next_id_m m"
    by (simp add: user User_ctor_def role_or_default_def)
  have counter: "next_id_m m' = next_id_m m + 1" by (simp add: m')
  have store: "users_c (users_m m') = users_c (users_m m) @ [user]"
    by (simp add: m' addUser_def)
  have visible: "user \<in> set (filterUsers pred (users_m m')) \<and> findUser pred (users_m m') \<noteq> None"
    if "pred user" for pred
    using that by (simp add: filterUsers_filter findUser_None_iff store)
  have active: "user \<in> set (getActiveUsers m')"
    unfolding getActiveUsers_def using fields by (intro visible [THEN conjunct1]) (simp add: isActive_def)
  have by_role: "user \<in> set (getUsersByRole (role_u user) m')"
    unfolding getUsersByRole_def by (intro visible [THEN conjunct1]) (simp add: getRole_def)
  have "findUser (\<lambda>u. getId u = id_u user) (users_m m') \<noteq> None"
    by (intro visible [THEN conjunct2]) (simp add: getId_def)
  then obtain found where f: "findUserById (id_u user) m' = Some found"
    by (auto simp: findUserById_def)
  then have "id_u found = id_u user"
    using findUser_Some_in_set [of "\<lambda>u. getId u = id_u user" "users_m m'" found]
    by (simp add: findUserById_def getId_def)
  with f have by_id: "\<exists>found. findUserById (id_u user) m' = Some found \<and> id_u found = id_u user"
    by blast
  have fresh: "findUserById (id_u user) m' = Some user"
    if "\<forall>old \<in> set (users_c (users_m m)). id_u old \<noteq> next_id_m m"
  proof -
    from that fields have "filter (\<lambda>u. getId u = id_u user) (users_c (users_m m)) = []"
      by (simp add: filter_empty_conv getId_def)
    then show ?thesis
      by (simp add: findUserById_def findUser_filter store getId_def)
  qed
  have total: "total_users (getStatistics m') = total_users (getStatistics m) + 1"
    by (simp add: getStatistics_def size_c_def store)
  note steps = createUserAsync_steps [OF assms, of later after]
  from fields counter store active by_role by_id fresh visible total steps show ?thesis
    by blast
qed

theorem createUserAsync_record_witness:
  "createUserAsync ''Alice'' ''a@x.com'' (Some ADMIN) 5 (UserManager_ctor Map.empty) =
     (\<lparr>id_u = 1, name_u = ''Alice'', email_u = ''a@x.com'', role_u = ADMIN,
       status_u = ACTIVE, created_at_u = 5\<rparr>,
      \<lparr>users_m = \<lparr>users_c = [\<lparr>id_u = 1, name_u = ''Alice'', email_u = ''a@x.com'',
                              role_u = ADMIN, status_u = ACTIVE, created_at_u = 5\<rparr>]\<rparr>,
       next_id_m = 2, config_m = Map.empty\<rparr>) \<and>
   findUserById 1
     \<lparr>users_m = \<lparr>users_c = [\<lparr>id_u = 1, name_u = ''Alice'', email_u = ''a@x.com'',
                              role_u = ADMIN, status_u = ACTIVE, created_at_u = 5\<rparr>]\<rparr>,
       next_id_m = 2, config_m = Map.empty\<rparr> =
     Some \<lparr>id_u = 1, name_u = ''Alice'', email_u = ''a@x.com'', role_u = ADMIN,
           status_u = ACTIVE, created_at_u = 5\<rparr>"
proof -
  have run: "createUserAsync ''Alice'' ''a@x.com'' (Some ADMIN) 5 (UserManager_ctor Map.empty) =
     (\<lparr>id_u = 1, name_u = ''Alice'', email_u = ''a@x.com'', role_u = ADMIN,
       status_u = ACTIVE, created_at_u = 5\<rparr>,
      \<lparr>users_m = \<lparr>users_c = [\<lparr>id_u = 1, name_u = ''Alice'', email_u = ''a@x.com'',
                              role_u = ADMIN, status_u = ACTIVE, created_at_u = 5\<rparr>]\<rparr>,
       next_id_m = 2, config_m = Map.empty\<rparr>)"
    by (simp add: createUserAsync_def fetch_add_def User_ctor_def role_or_default_def
        UserManager_ctor_def addUser_def Let_def)
  have fresh: "\<forall>old \<in> set (users_c (users_m (UserManager_ctor Map.empty))).
      id_u old \<noteq> next_id_m (UserManager_ctor Map.empty)"
    by (simp add: UserManager_ctor_def)
  from createUserAsync_record [OF run] fresh run show ?thesis
    by (simp add: UserManager_ctor_def)
qed

section \<open>A creation that fails\<close>

lemma task_body_result:
  "task_body throws name email role now m =
     (case throws of
        None \<Rightarrow> (Inr (User_ctor (next_id_m m) name email (role_or_default role) now),
                 m\<lparr>next_id_m := next_id_m m + 1,
                   users_m := addUser (User_ctor (next_id_m m) name email (role_or_default role) now)
                                (users_m m)\<rparr>)
      | Some Construct \<Rightarrow> (Inl Construct, m\<lparr>next_id_m := next_id_m m + 1\<rparr>)
      | Some Insert \<Rightarrow> (Inl Insert, m\<lparr>next_id_m := next_id_m m + 1\<rparr>)
      | Some Print \<Rightarrow> (Inl Print,
                 m\<lparr>next_id_m := next_id_m m + 1,
                   users_m := addUser (User_ctor (next_id_m m) name email (role_or_default role) now)
                                (users_m m)\<rparr>))"
  by (simp add: task_body_def fetch_add_def Let_def split: option.splits statement.splits)

text \<open>The run with a throwing statement is the run of the task's steps, the last one
  throwing.\<close>

lemma task_body_steps:
  assumes "user = User_ctor (next_id_m m) name email (role_or_default role) now"
  shows "throw_task (Launched name email (role_or_default role)) m =
           (Failed_Construct (next_id_m m), snd (task_body (Some Construct) name email role now m)) \<and>
         throw_task (fst (step_task now (Launched name email (role_or_default role)) m))
             (snd (step_task now (Launched name email (role_or_default role)) m)) =
           (Failed_Insert user, snd (task_body (Some Insert) name email role now m)) \<and>
         throw_task (Inserted user) (snd (task_body (Some Print) name email role now m)) =
           (Failed_Print user, snd (task_body (Some Print) name email role now m)) \<and>
         task_body None name email role now m =
           (Inr (fst (createUserAsync name email role now m)),
            snd (createUserAsync name email role now m))"
  using assms by (simp add: task_body_result createUserAsync_result fetch_add_def)

text \<open>
  Claim C8, as it holds. Let the task of one \<open>createUserAsync\<close> run with the statement
  that throws, if any, given. If the construction or \<open>addUser\<close> throws, the creation
  fails and the collection is as it was. If the print throws, the creation fails as
  well, but \<open>addUser\<close> has run before it: the whole user is at the end of the
  collection and \<open>findUserById\<close> and \<open>filterUsers\<close> return it. If nothing throws,
  the run is \<open>createUserAsync\<close>. In every case the collection afterwards is the old
  sequence, or the old sequence with the whole user appended, and the same holds for
  every single event of interleaved tasks: no part of a user is ever in the collection.
\<close>

theorem task_body_all_or_nothing:
  assumes run: "task_body throws name email role now m = (outcome, m')"
    and user: "user = User_ctor (next_id_m m) name email (role_or_default role) now"
  shows "(throws = Some Construct \<or> throws = Some Insert \<longrightarrow>
            outcome = Inl (the throws) \<and> users_m m' = users_m m) \<and>
         (throws = Some Print \<longrightarrow>
            outcome = Inl Print \<and>
            users_c (users_m m') = users_c (users_m m) @ [user] \<and>
            (\<exists>found. findUserById (id_u user) m' = Some found \<and> id_u found = id_u user) \<and>
            (\<forall>pred. pred user \<longrightarrow> user \<in> set (filterUsers pred (users_m m')))) \<and>
         (throws = None \<longrightarrow>
            outcome = Inr user \<and> (user, m') = createUserAsync name email role now m) \<and>
         ((\<exists>st. outcome = Inl st) \<longleftrightarrow> throws \<noteq> None) \<and>
         (users_c (users_m m') = users_c (users_m m) \<or>
          users_c (users_m m') = users_c (users_m m) @ [user]) \<and>
         (users_c (users_m (manager (exec e s))) = users_c (users_m (manager s)) \<or>
          (\<exists>i clock stored. e = Step i clock \<and> i < length (futures s) \<and>
             futures s ! i = Allocated stored \<and>
             users_c (users_m (manager (exec e s))) = users_c (users_m (manager s)) @ [stored]))"
proof -
  have early: "throws = Some Construct \<or> throws = Some Insert \<longrightarrow>
            outcome = Inl (the throws) \<and> users_m m' = users_m m"
    using run by (auto simp: task_body_result)
  have late: "throws = Some Print \<longrightarrow>
            outcome = Inl Print \<and>
            users_c (users_m m') = users_c (users_m m) @ [user] \<and>
            (\<exists>found. findUserById (id_u user) m' = Some found \<and> id_u found = id_u user) \<and>
            (\<forall>pred. pred user \<longrightarrow> user \<in> set (filterUsers pred (users_m m')))"
  proof
    assume p: "throws = Some Print"
    from p run user have out: "outcome = Inl Print"
      and store: "users_c (users_m m') = users_c (users_m m) @ [user]"
      by (auto simp: task_body_result addUser_def)
    have vis: "\<forall>pred. pred user \<longrightarrow> user \<in> set (filterUsers pred (users_m m'))"
      by (simp add: filterUsers_filter store)
    have "findUser (\<lambda>u. getId u = id_u user) (users_m m') \<noteq> None"
      by (simp add: findUser_None_iff store getId_def)
    then obtain found where f: "findUserById (id_u user) m' = Some found"
      by (auto simp: findUserById_def)
    then have "id_u found = id_u user"
      using findUser_Some_in_set [of "\<lambda>u. getId u = id_u user" "users_m m'" found]
      by (simp add: findUserById_def getId_def)
    with f have byid: "\<exists>found. findUserById (id_u user) m' = Some found \<and> id_u found = id_u user"
      by blast
    show "outcome = Inl Print \<and>
            users_c (users_m m') = users_c (users_m m) @ [user] \<and>
            (\<exists>found. findUserById (id_u user) m' = Some found \<and> id_u found = id_u user) \<and>
            (\<forall>pred. pred user \<longrightarrow> user \<in> set (filterUsers pred (users_m m')))"
      by (intro conjI; fact)
  qed
  have ok: "throws = None \<longrightarrow>
            outcome = Inr user \<and> (user, m') = createUserAsync name email role now m"
    using run user by (auto simp: task_body_result createUserAsync_result)
  have fails: "(\<exists>st. outcome = Inl st) \<longleftrightarrow> throws \<noteq> None"
    using run by (auto simp: task_body_result split: option.splits statement.splits)
  have whole: "users_c (users_m m') = users_c (users_m m) \<or>
          users_c (users_m m') = users_c (users_m m) @ [user]"
    using run user
    by (auto simp: task_body_result addUser_def split: option.splits statement.splits)
  have each: "users_c (users_m (manager (exec e s))) = users_c (users_m (manager s)) \<or>
          (\<exists>i clock stored. e = Step i clock \<and> i < length (futures s) \<and>
             futures s ! i = Allocated stored \<and>
             users_c (users_m (manager (exec e s))) = users_c (users_m (manager s)) @ [stored])"
    using exec_store [of e s] by auto
  show ?thesis by (intro conjI; fact)
qed

theorem task_body_all_or_nothing_witness:
  "task_body (Some Insert) ''Alice'' ''a@x.com'' (Some ADMIN) 5 (UserManager_ctor Map.empty) =
     (Inl Insert, \<lparr>users_m = \<lparr>users_c = []\<rparr>, next_id_m = 2, config_m = Map.empty\<rparr>) \<and>
   users_m \<lparr>users_m = \<lparr>users_c = []\<rparr>, next_id_m = 2, config_m = Map.empty\<rparr> =
     users_m (UserManager_ctor Map.empty) \<and>
   task_body (Some Print) ''Alice'' ''a@x.com'' (Some ADMIN) 5 (UserManager_ctor Map.empty) =
     (Inl Print,
      \<lparr>users_m = \<lparr>users_c = [User_ctor 1 ''Alice'' ''a@x.com'' ADMIN 5]\<rparr>,
       next_id_m = 2, config_m = Map.empty\<rparr>) \<and>
   User_ctor 1 ''Alice'' ''a@x.com'' ADMIN 5
     \<in> set (filterUsers (\<lambda>u. role_u u = ADMIN)
              (users_m \<lparr>users_m = \<lparr>users_c = [User_ctor 1 ''Alice'' ''a@x.com'' ADMIN 5]\<rparr>,
                        next_id_m = 2, config_m = Map.empty\<rparr>))"
proof -
  have user: "User_ctor 1 ''Alice'' ''a@x.com'' ADMIN 5 =
      User_ctor (next_id_m (UserManager_ctor Map.empty)) ''Alice'' ''a@x.com''
        (role_or_default (Some ADMIN)) 5"
    by (simp add: UserManager_ctor_def role_or_default_def)
  have ins: "task_body (Some Insert) ''Alice'' ''a@x.com'' (Some ADMIN) 5 (UserManager_ctor Map.empty) =
     (Inl Insert, \<lparr>users_m = \<lparr>users_c = []\<rparr>, next_id_m = 2, config_m = Map.empty\<rparr>)"
    by (simp add: task_body_def fetch_add_def UserManager_ctor_def Let_def)
  have prt: "task_body (Some Print) ''Alice'' ''a@x.com'' (Some ADMIN) 5 (UserManager_ctor Map.empty) =
     (Inl Print,
      \<lparr>users_m = \<lparr>users_c = [User_ctor 1 ''Alice'' ''a@x.com'' ADMIN 5]\<rparr>,
       next_id_m = 2, config_m = Map.empty\<rparr>)"
    by (simp add: task_body_def fetch_add_def UserManager_ctor_def Let_def addUser_def
        role_or_default_def)
  have admin: "role_u (User_ctor 1 ''Alice'' ''a@x.com'' ADMIN 5) = ADMIN"
    by (simp add: User_ctor_def)
  from task_body_all_or_nothing [OF ins user, THEN conjunct1]
  have unchanged: "users_m \<lparr>users_m = \<lparr>users_c = []\<rparr>, next_id_m = 2, config_m = Map.empty\<rparr> =
     users_m (UserManager_ctor Map.empty)"
    by simp
  from task_body_all_or_nothing [OF prt user, THEN conjunct2, THEN conjunct1]
  have "\<forall>pred. pred (User_ctor 1 ''Alice'' ''a@x.com'' ADMIN 5) \<longrightarrow>
      User_ctor 1 ''Alice'' ''a@x.com'' ADMIN 5
        \<in> set (filterUsers pred
              (users_m \<lparr>users_m = \<lparr>users_c = [User_ctor 1 ''Alice'' ''a@x.com'' ADMIN 5]\<rparr>,
                        next_id_m = 2, config_m = Map.empty\<rparr>))"
    by simp
  then have "role_u (User_ctor 1 ''Alice'' ''a@x.com'' ADMIN 5) = ADMIN \<longrightarrow>
      User_ctor 1 ''Alice'' ''a@x.com'' ADMIN 5
        \<in> set (filterUsers (\<lambda>u. role_u u = ADMIN)
              (users_m \<lparr>users_m = \<lparr>users_c = [User_ctor 1 ''Alice'' ''a@x.com'' ADMIN 5]\<rparr>,
                        next_id_m = 2, config_m = Map.empty\<rparr>))"
    by (rule spec)
  with admin
  have visible: "User_ctor 1 ''Alice'' ''a@x.com'' ADMIN 5
     \<in> set (filterUsers (\<lambda>u. role_u u = ADMIN)
              (users_m \<lparr>users_m = \<lparr>users_c = [User_ctor 1 ''Alice'' ''a@x.com'' ADMIN 5]\<rparr>,
                        next_id_m = 2, config_m = Map.empty\<rparr>))"
    by (rule rev_mp)
  show ?thesis by (intro conjI; fact)
qed

text \<open>
  The claim as the specification has it, that a creation which fails leaves the
  collection unchanged, does not hold: when the print throws, \<open>get()\<close> on the future
  rethrows the exception, and the user is in the collection and is found.
\<close>

theorem failed_creation_counterexample:
  "fst (task_body (Some Print) ''Alice'' ''a@x.com'' (Some ADMIN) 5 (UserManager_ctor Map.empty)) =
     Inl Print \<and>
   users_c (users_m (UserManager_ctor Map.empty)) = [] \<and>
   users_c (users_m (snd (task_body (Some Print) ''Alice'' ''a@x.com'' (Some ADMIN) 5
                            (UserManager_ctor Map.empty)))) =
     [User_ctor 1 ''Alice'' ''a@x.com'' ADMIN 5] \<and>
   findUserById 1 (snd (task_body (Some Print) ''Alice'' ''a@x.com'' (Some ADMIN) 5
                            (UserManager_ctor Map.empty))) =
     Some (User_ctor 1 ''Alice'' ''a@x.com'' ADMIN 5)"
proof -
  have body: "task_body (Some Print) ''Alice'' ''a@x.com'' (Some ADMIN) 5 (UserManager_ctor Map.empty) =
     (Inl Print,
      \<lparr>users_m = \<lparr>users_c = [User_ctor 1 ''Alice'' ''a@x.com'' ADMIN 5]\<rparr>,
       next_id_m = 2, config_m = Map.empty\<rparr>)"
    by (simp add: task_body_def fetch_add_def UserManager_ctor_def Let_def addUser_def
        role_or_default_def)
  have empty: "users_c (users_m (UserManager_ctor Map.empty)) = []"
    by (simp add: UserManager_ctor_def)
  have found: "findUserById 1
      \<lparr>users_m = \<lparr>users_c = [User_ctor 1 ''Alice'' ''a@x.com'' ADMIN 5]\<rparr>,
       next_id_m = 2, config_m = Map.empty\<rparr> =
     Some (User_ctor 1 ''Alice'' ''a@x.com'' ADMIN 5)"
    by (simp add: findUserById_def findUser_def getId_def User_ctor_def)
  from empty found show ?thesis by (simp add: body)
qed

end
